theory Spec2Isabelle
  imports
    Complex_Main
    "HOL-Library.Char_ord"
    "HOL-Library.List_Lexorder"
    "HOL-Library.Product_Lexorder"
begin

section \<open>Synthetic mental-health demand generator\<close>

text \<open>
  A shallow embedding of \<^verbatim>\<open>src/generate_mental_health_data.py\<close>.

  \<^item> Python floats are modelled as \<^typ>\<open>real\<close>: the decimal literals stand for the
    numbers they denote and arithmetic is exact.
  \<^item> A \<^verbatim>\<open>pd.Timestamp\<close> at day resolution is the number of days since 1970-01-01
    (an \<^typ>\<open>int\<close>); its calendar fields are computed from that number.
  \<^item> The process-wide NumPy generator is an explicit state of type \<open>'g\<close>, threaded
    through every draw; the three NumPy entry points the program calls are the fields
    of a record of functions on that state.
  \<^item> A \<^verbatim>\<open>DataFrame\<close> is the list of its rows, a CSV artifact is the table written.
  \<^item> Exceptions are values: a function that can raise returns \<open>error + 'a\<close>.
\<close>

subsection \<open>Constants of the module\<close>

definition HEALTH_BOARDS :: "string list" where
  "HEALTH_BOARDS =
    [''NHS Ayrshire and Arran'', ''NHS Borders'', ''NHS Dumfries and Galloway'',
     ''NHS Fife'', ''NHS Forth Valley'', ''NHS Grampian'',
     ''NHS Greater Glasgow and Clyde'', ''NHS Highland'', ''NHS Lanarkshire'',
     ''NHS Lothian'', ''NHS Orkney'', ''NHS Shetland'', ''NHS Tayside'',
     ''NHS Western Isles'']"

definition AGE_GROUPS :: "string list" where
  "AGE_GROUPS =
    [''0-17'', ''18-25'', ''26-35'', ''36-45'', ''46-55'', ''56-65'', ''66-75'', ''76+'']"

definition SIMD_QUINTILES :: "int list" where
  "SIMD_QUINTILES = [1, 2, 3, 4, 5]"

definition PRESENTATION_TYPES :: "string list" where
  "PRESENTATION_TYPES =
    [''Self Harm'', ''Suicidal Ideation'', ''Acute Anxiety'', ''Depression'',
     ''Psychosis'', ''Substance Abuse'', ''Eating Disorder'', ''Other'']"

definition board_multipliers :: "(string \<times> real) list" where
  "board_multipliers =
    [(''NHS Greater Glasgow and Clyde'', 2.5), (''NHS Lothian'', 2.0),
     (''NHS Lanarkshire'', 1.5), (''NHS Grampian'', 1.3), (''NHS Tayside'', 1.2),
     (''NHS Fife'', 1.0), (''NHS Ayrshire and Arran'', 1.0), (''NHS Highland'', 0.9),
     (''NHS Forth Valley'', 0.8), (''NHS Dumfries and Galloway'', 0.6),
     (''NHS Borders'', 0.4), (''NHS Western Isles'', 0.2), (''NHS Orkney'', 0.15),
     (''NHS Shetland'', 0.15)]"

definition day_factors :: "(int \<times> real) list" where
  "day_factors = [(0, 1.3), (1, 1.1), (2, 1.0), (3, 1.0), (4, 1.1), (5, 0.9), (6, 0.85)]"

definition age_weights :: "real list" where
  "age_weights = [0.08, 0.25, 0.20, 0.15, 0.15, 0.10, 0.05, 0.02]"

definition simd_weights :: "real list" where
  "simd_weights = [0.35, 0.25, 0.20, 0.12, 0.08]"

definition type_weights :: "real list" where
  "type_weights = [0.18, 0.22, 0.15, 0.20, 0.08, 0.10, 0.03, 0.04]"

subsection \<open>Timestamps\<close>

text \<open>
  The proleptic Gregorian calendar on day numbers, as pandas computes the fields of a
  timestamp: \<open>days_from_civil\<close> reads a date \<^verbatim>\<open>'YYYY-MM-DD'\<close>, the other functions are
  the accessors \<^verbatim>\<open>.year\<close>, \<^verbatim>\<open>.month\<close>, \<^verbatim>\<open>.dayofweek\<close> (Monday is 0) and
  \<^verbatim>\<open>.isocalendar().week\<close>.
\<close>

definition days_from_civil :: "int \<Rightarrow> int \<Rightarrow> int \<Rightarrow> int" where
  "days_from_civil y m d =
    (let y' = (if m \<le> 2 then y - 1 else y);
         era = y' div 400;
         yoe = y' - era * 400;
         doy = (153 * (if m > 2 then m - 3 else m + 9) + 2) div 5 + d - 1;
         doe = yoe * 365 + yoe div 4 - yoe div 100 + doy
     in era * 146097 + doe - 719468)"

definition civil_from_days :: "int \<Rightarrow> int \<times> int \<times> int" where
  "civil_from_days t =
    (let z = t + 719468;
         era = z div 146097;
         doe = z - era * 146097;
         yoe = (doe - doe div 1460 + doe div 36524 - doe div 146096) div 365;
         doy = doe - (365 * yoe + yoe div 4 - yoe div 100);
         mp = (5 * doy + 2) div 153;
         d = doy - (153 * mp + 2) div 5 + 1;
         m = (if mp < 10 then mp + 3 else mp - 9)
     in (if m \<le> 2 then yoe + era * 400 + 1 else yoe + era * 400, m, d))"

definition dt_year :: "int \<Rightarrow> int" where
  "dt_year t = fst (civil_from_days t)"

definition dt_month :: "int \<Rightarrow> int" where
  "dt_month t = fst (snd (civil_from_days t))"

definition dayofweek :: "int \<Rightarrow> int" where
  "dayofweek t = (t + 3) mod 7"

definition iso_weeks_in_year :: "int \<Rightarrow> int" where
  "iso_weeks_in_year y =
    (let p = (\<lambda>x. (x + x div 4 - x div 100 + x div 400) mod 7)
     in if p y = 4 \<or> p (y - 1) = 3 then 53 else 52)"

definition isocalendar_week :: "int \<Rightarrow> int" where
  "isocalendar_week t =
    (let y = dt_year t;
         w = (t - days_from_civil y 1 1 + 1 - (dayofweek t + 1) + 10) div 7
     in if w < 1 then iso_weeks_in_year (y - 1)
        else if w > iso_weeks_in_year y then 1
        else w)"

text \<open>The decimal digit of a number's last place (the index is always in range).\<close>

definition digit_char :: "int \<Rightarrow> char" where
  "digit_char n = ''0123456789'' ! nat (n mod 10)"

text \<open>\<^verbatim>\<open>dt.to_period('M').astype(str)\<close>: the month as \<^verbatim>\<open>YYYY-MM\<close> (years 0 to 9999).\<close>

definition period_str :: "int \<Rightarrow> string" where
  "period_str t =
    (let y = dt_year t; m = dt_month t
     in [digit_char (y div 1000), digit_char (y div 100), digit_char (y div 10),
         digit_char y, CHR ''-'', digit_char (m div 10), digit_char m])"

subsection \<open>Rows, errors and the random generator\<close>

record presentation =
  date :: int
  health_board :: string
  age_group :: string
  simd_quintile :: int
  presentation_type :: string
  presentations :: int

record full_row = presentation +
  year :: int
  month :: int
  day_of_week :: int
  week_of_year :: int
  is_weekend :: int

datatype error = ValueError | IndexError | KeyError

text \<open>
  \<^verbatim>\<open>np.random.seed\<close>, \<^verbatim>\<open>np.random.poisson\<close> and \<^verbatim>\<open>np.random.multinomial\<close> on
  the generator state. The draws return NumPy's signed integers.
\<close>

record 'g np_random =
  np_seed :: "nat \<Rightarrow> 'g \<Rightarrow> 'g"
  np_poisson :: "real \<Rightarrow> 'g \<Rightarrow> int \<times> 'g"
  np_multinomial :: "int \<Rightarrow> real list \<Rightarrow> 'g \<Rightarrow> int list \<times> 'g"

subsection \<open>The expected count of a day\<close>

definition base_demand :: "string \<Rightarrow> real" where
  "base_demand hb = 50 * (case map_of board_multipliers hb of Some m \<Rightarrow> m | None \<Rightarrow> 1.0)"

definition seasonal_factor :: "int \<Rightarrow> real" where
  "seasonal_factor mth = 1.0 + 0.3 * sin (2 * pi * (of_int mth - 1) / 12 + pi)"

definition covid_factor :: "int \<Rightarrow> real" where
  "covid_factor yr = (if 2020 \<le> yr \<and> yr \<le> 2021 then 1.4 else if yr = 2022 then 1.2 else 1.0)"

definition year_trend :: "int \<Rightarrow> real" where
  "year_trend yr = 1.0 + 0.05 * of_int (yr - 2019)"

definition expected_presentations :: "string \<Rightarrow> int \<Rightarrow> int \<Rightarrow> real \<Rightarrow> real" where
  "expected_presentations hb yr mth day_factor =
    base_demand hb * seasonal_factor mth * day_factor * covid_factor yr * year_trend yr"

subsection \<open>The generator\<close>

text \<open>
  The three nested \<^verbatim>\<open>for idx, name in enumerate(...)\<close> loops of
  \<^verbatim>\<open>generate_time_series_data\<close>, innermost first. Each reads the sampled vector at
  the loop index (an index past its end raises \<^verbatim>\<open>IndexError\<close>) and \<open>data\<close> is the
  list the rows are appended to.
\<close>

fun type_loop ::
  "int \<Rightarrow> string \<Rightarrow> string \<Rightarrow> int \<Rightarrow> int list \<Rightarrow> (nat \<times> string) list \<Rightarrow>
   presentation list \<Rightarrow> error + presentation list" where
  "type_loop d hb ag simd type_distributions [] data = Inr data"
| "type_loop d hb ag simd type_distributions ((type_idx, pres_type) # rest) data =
    (if type_idx < length type_distributions then
       (let count = type_distributions ! type_idx
        in type_loop d hb ag simd type_distributions rest
             (if count > 0
              then data @ [\<lparr>date = d, health_board = hb, age_group = ag,
                             simd_quintile = simd, presentation_type = pres_type,
                             presentations = count\<rparr>]
              else data))
     else Inl IndexError)"

fun simd_loop ::
  "'g np_random \<Rightarrow> int \<Rightarrow> string \<Rightarrow> string \<Rightarrow> int list \<Rightarrow> (nat \<times> int) list \<Rightarrow>
   presentation list \<Rightarrow> 'g \<Rightarrow> error + presentation list \<times> 'g" where
  "simd_loop R d hb ag simd_distributions [] data g = Inr (data, g)"
| "simd_loop R d hb ag simd_distributions ((simd_idx, simd) # rest) data g =
    (if simd_idx < length simd_distributions then
       (let simd_presentations = simd_distributions ! simd_idx
        in if simd_presentations > 0 then
             (case np_multinomial R simd_presentations type_weights g of
                (type_distributions, g') \<Rightarrow>
                  (case type_loop d hb ag simd type_distributions
                          (enumerate 0 PRESENTATION_TYPES) data of
                     Inl e \<Rightarrow> Inl e
                   | Inr data' \<Rightarrow> simd_loop R d hb ag simd_distributions rest data' g'))
           else simd_loop R d hb ag simd_distributions rest data g)
     else Inl IndexError)"

fun age_loop ::
  "'g np_random \<Rightarrow> int \<Rightarrow> string \<Rightarrow> int list \<Rightarrow> (nat \<times> string) list \<Rightarrow>
   presentation list \<Rightarrow> 'g \<Rightarrow> error + presentation list \<times> 'g" where
  "age_loop R d hb age_distributions [] data g = Inr (data, g)"
| "age_loop R d hb age_distributions ((age_idx, ag) # rest) data g =
    (if age_idx < length age_distributions then
       (let age_presentations = age_distributions ! age_idx
        in if age_presentations > 0 then
             (case np_multinomial R age_presentations simd_weights g of
                (simd_distributions, g') \<Rightarrow>
                  (case simd_loop R d hb ag simd_distributions
                          (enumerate 0 SIMD_QUINTILES) data g' of
                     Inl e \<Rightarrow> Inl e
                   | Inr (data', g'') \<Rightarrow> age_loop R d hb age_distributions rest data' g''))
           else age_loop R d hb age_distributions rest data g)
     else Inl IndexError)"

text \<open>
  The body of \<^verbatim>\<open>for date in dates\<close>. The \<^verbatim>\<open>day_factor\<close> dictionary is indexed with
  the day of the week (\<^verbatim>\<open>KeyError\<close> on a missing key), \<^verbatim>\<open>np.random.poisson\<close> raises
  \<^verbatim>\<open>ValueError\<close> for a negative \<^verbatim>\<open>lam\<close>, and \<^verbatim>\<open>max(0, ...)\<close> is applied to the
  number drawn.
\<close>

definition day_expected :: "string \<Rightarrow> int \<Rightarrow> error + real" where
  "day_expected hb d =
    (case map_of day_factors (dayofweek d) of
       None \<Rightarrow> Inl KeyError
     | Some day_factor \<Rightarrow>
         Inr (expected_presentations hb (dt_year d) (dt_month d) day_factor))"

definition generate_day ::
  "'g np_random \<Rightarrow> string \<Rightarrow> int \<Rightarrow> presentation list \<Rightarrow> 'g \<Rightarrow>
   error + presentation list \<times> 'g" where
  "generate_day R hb d data g =
    (case day_expected hb d of
       Inl e \<Rightarrow> Inl e
     | Inr expected \<Rightarrow>
         if expected < 0 then Inl ValueError
         else (case np_poisson R expected g of
                 (drawn, g1) \<Rightarrow>
                   (let total = max 0 drawn
                    in case np_multinomial R total age_weights g1 of
                         (age_distributions, g2) \<Rightarrow>
                           age_loop R d hb age_distributions
                             (enumerate 0 AGE_GROUPS) data g2)))"

fun dates_loop ::
  "'g np_random \<Rightarrow> string \<Rightarrow> int list \<Rightarrow> presentation list \<Rightarrow> 'g \<Rightarrow>
   error + presentation list \<times> 'g" where
  "dates_loop R hb [] data g = Inr (data, g)"
| "dates_loop R hb (d # ds) data g =
    (case generate_day R hb d data g of
       Inl e \<Rightarrow> Inl e
     | Inr (data', g') \<Rightarrow> dates_loop R hb ds data' g')"

text \<open>
  \<^verbatim>\<open>pd.date_range(start, end, freq='D')\<close> is the list of days from \<open>start\<close> to \<open>end\<close>,
  both included, and is empty when \<open>end\<close> is before \<open>start\<close>.
\<close>

definition generate_time_series_data ::
  "'g np_random \<Rightarrow> int \<Rightarrow> int \<Rightarrow> string \<Rightarrow> 'g \<Rightarrow> error + presentation list \<times> 'g" where
  "generate_time_series_data R start_date end_date hb g =
    dates_loop R hb [start_date..end_date] [] g"

subsection \<open>The complete dataset and the three artifacts\<close>

definition add_calendar_columns :: "presentation \<Rightarrow> full_row" where
  "add_calendar_columns r =
    presentation.extend r
      (full_row.fields (dt_year (date r)) (dt_month (date r)) (dayofweek (date r))
         (isocalendar_week (date r))
         (if dayofweek (date r) \<in> set [5, 6] then 1 else 0))"

fun boards_loop ::
  "'g np_random \<Rightarrow> int \<Rightarrow> int \<Rightarrow> string list \<Rightarrow> presentation list list \<Rightarrow> 'g \<Rightarrow>
   error + presentation list list \<times> 'g" where
  "boards_loop R s e [] all_data g = Inr (all_data, g)"
| "boards_loop R s e (board # rest) all_data g =
    (case generate_time_series_data R s e board g of
       Inl err \<Rightarrow> Inl err
     | Inr (board_data, g') \<Rightarrow> boards_loop R s e rest (all_data @ [board_data]) g')"

text \<open>
  \<^verbatim>\<open>generate_complete_dataset\<close> for a date range and a list of boards: concatenate,
  sort by date, attach the calendar columns. \<^verbatim>\<open>pd.concat\<close> of no frames raises
  \<^verbatim>\<open>ValueError\<close>. A frame built from no rows has no columns, so sorting it by
  \<^verbatim>\<open>'date'\<close> raises \<^verbatim>\<open>KeyError\<close>. \<^verbatim>\<open>df.sort_values('date')\<close> runs pandas'
  default sorting routine, which does not fix the order of rows of one date; the routine is
  the parameter \<open>sort_values\<close>, and what is proved of the table is proved for every routine.
\<close>

definition generate_dataset ::
  "'g np_random \<Rightarrow> (presentation list \<Rightarrow> presentation list) \<Rightarrow> int \<Rightarrow> int \<Rightarrow>
   string list \<Rightarrow> 'g \<Rightarrow> error + full_row list \<times> 'g" where
  "generate_dataset R sort_values s e boards g =
    (case boards_loop R s e boards [] g of
       Inl err \<Rightarrow> Inl err
     | Inr (all_data, g') \<Rightarrow>
         if all_data = [] then Inl ValueError
         else (let df = concat all_data
               in if df = [] then Inl KeyError
                  else Inr (map add_calendar_columns (sort_values df), g')))"

definition generate_complete_dataset ::
  "'g np_random \<Rightarrow> (presentation list \<Rightarrow> presentation list) \<Rightarrow> 'g \<Rightarrow>
   error + full_row list \<times> 'g" where
  "generate_complete_dataset R sort_values g =
    generate_dataset R sort_values (days_from_civil 2019 1 1) (days_from_civil 2024 10 31)
      HEALTH_BOARDS g"

text \<open>
  \<^verbatim>\<open>groupby(keys).agg({'presentations': 'sum'}).reset_index()\<close>: one pass over the
  rows adds each count to the entry of its key, and the groups come out sorted by key.
  Counts are Python's unbounded integers here; pandas sums the column as 64-bit integers,
  which differs only for a sum beyond \<open>2\<^sup>6\<^sup>3 - 1\<close>.
\<close>

definition agg_add :: "'k \<Rightarrow> int \<Rightarrow> ('k \<times> int) list \<Rightarrow> ('k \<times> int) list" where
  "agg_add k v acc =
    (case map_of acc k of
       None \<Rightarrow> acc @ [(k, v)]
     | Some s \<Rightarrow> map (\<lambda>(k', s'). if k' = k then (k', s' + v) else (k', s')) acc)"

definition groupby_sum ::
  "('r \<Rightarrow> 'k::linorder) \<Rightarrow> ('r \<Rightarrow> int) \<Rightarrow> 'r list \<Rightarrow> ('k \<times> int) list" where
  "groupby_sum key val rows =
    sort_key fst (fold (\<lambda>r acc. agg_add (key r) (val r) acc) rows [])"

definition daily_summary :: "full_row list \<Rightarrow> ((int \<times> string) \<times> int) list" where
  "daily_summary df = groupby_sum (\<lambda>r. (date r, health_board r)) presentations df"

definition monthly_summary ::
  "full_row list \<Rightarrow> ((string \<times> string \<times> string \<times> int) \<times> int) list" where
  "monthly_summary df =
    groupby_sum (\<lambda>r. (period_str (date r), health_board r, age_group r, simd_quintile r))
      presentations df"

text \<open>
  \<^verbatim>\<open>save_data\<close> writes three files; the model returns the three tables. The empty
  list stands for a frame that has the columns and no rows, whose summaries are empty; a
  frame without columns, for which the first group-by raises \<^verbatim>\<open>KeyError\<close>, is never
  passed on by \<open>generate_dataset\<close>.
\<close>

definition save_data ::
  "full_row list \<Rightarrow>
   full_row list \<times> ((int \<times> string) \<times> int) list \<times>
   ((string \<times> string \<times> string \<times> int) \<times> int) list" where
  "save_data df = (df, daily_summary df, monthly_summary df)"

text \<open>
  Running the module as a script: the generator is seeded with 42 when the module is
  loaded, then the dataset is generated and saved. (\<^verbatim>\<open>random.seed\<close> seeds Python's
  own generator, which nothing here draws from.)
\<close>

definition main ::
  "'g np_random \<Rightarrow> (presentation list \<Rightarrow> presentation list) \<Rightarrow> 'g \<Rightarrow>
   error + (full_row list \<times> ((int \<times> string) \<times> int) list \<times>
            ((string \<times> string \<times> string \<times> int) \<times> int) list)" where
  "main R sort_values g =
    (case generate_complete_dataset R sort_values (np_seed R 42 g) of
       Inl err \<Rightarrow> Inl err
     | Inr (df, g') \<Rightarrow> Inr (save_data df))"

subsection \<open>Auxiliary notions for the statements\<close>

definition sum_presentations :: "('a presentation_scheme) list \<Rightarrow> int" where
  "sum_presentations rows = sum_list (map presentations rows)"

text \<open>
  What NumPy documents of \<^verbatim>\<open>multinomial(n, pvals)\<close> for \<open>n \<ge> 0\<close> and a non-empty
  \<open>pvals\<close>: one non-negative count per entry of \<open>pvals\<close>, and the counts add up to \<open>n\<close>.
\<close>

definition multinomial_contract :: "'g np_random \<Rightarrow> bool" where
  "multinomial_contract R =
    (\<forall>n pvals g. 0 \<le> n \<and> pvals \<noteq> [] \<longrightarrow>
       length (fst (np_multinomial R n pvals g)) = length pvals \<and>
       (\<forall>x \<in> set (fst (np_multinomial R n pvals g)). 0 \<le> x) \<and>
       sum_list (fst (np_multinomial R n pvals g)) = n)"

text \<open>
  A small generator to run the model on: its state counts the draws, every Poisson
  draw is 3, and a multinomial draw splits \<open>n\<close> between the first two entries.
\<close>

definition example_rng :: "nat np_random" where
  "example_rng =
    \<lparr>np_seed = (\<lambda>s g. s),
     np_poisson = (\<lambda>lam g. (3, Suc g)),
     np_multinomial = (\<lambda>n pvals g.
       (case pvals of
          [] \<Rightarrow> []
        | [p] \<Rightarrow> [n]
        | p # q # rest \<Rightarrow> (n - n div 2) # (n div 2) # map (\<lambda>_. 0) rest,
        Suc g))\<rparr>"

text \<open>The three rows the example generator yields on any day with a non-negative expected count.\<close>

definition example_rows :: "int \<Rightarrow> string \<Rightarrow> presentation list" where
  "example_rows d hb =
    [\<lparr>date = d, health_board = hb, age_group = ''0-17'', simd_quintile = 1,
      presentation_type = ''Self Harm'', presentations = 1\<rparr>,
     \<lparr>date = d, health_board = hb, age_group = ''0-17'', simd_quintile = 2,
      presentation_type = ''Self Harm'', presentations = 1\<rparr>,
     \<lparr>date = d, health_board = hb, age_group = ''18-25'', simd_quintile = 1,
      presentation_type = ''Self Harm'', presentations = 1\<rparr>]"

text \<open>The table of the example generator for the first week of 2020 and one board.\<close>

definition example_table :: "full_row list" where
  "example_table =
    map add_calendar_columns
      (sort_key date (concat (map (\<lambda>d. example_rows d ''NHS Fife'') [18262..18268])))"

text \<open>A table, and the outcome of a call, with the region field of every row set to \<open>hb\<close>.\<close>

definition with_board :: "string \<Rightarrow> presentation list \<Rightarrow> presentation list" where
  "with_board hb rows = map (\<lambda>r. r\<lparr>health_board := hb\<rparr>) rows"

definition as_board ::
  "string \<Rightarrow> error + presentation list \<times> 'g \<Rightarrow> error + presentation list \<times> 'g" where
  "as_board hb res =
    (case res of Inl err \<Rightarrow> Inl err | Inr (df, g') \<Rightarrow> Inr (with_board hb df, g'))"

text \<open>The mean of the expected count over a list of months, the other inputs fixed.\<close>

definition mean_expected :: "string \<Rightarrow> int \<Rightarrow> real \<Rightarrow> int list \<Rightarrow> real" where
  "mean_expected hb yr day_factor months =
    sum_list (map (\<lambda>mth. expected_presentations hb yr mth day_factor) months) /
    of_nat (length months)"

section \<open>Properties of the calendar and of the expected count\<close>

lemma dayofweek_range: "0 \<le> dayofweek d \<and> dayofweek d < 7"
  by (simp add: dayofweek_def)

lemma day_factor_pos: "map_of day_factors k = Some f \<Longrightarrow> 0 < f"
  by (drule map_of_SomeD) (auto simp: day_factors_def)

lemma day_factor_found: "\<exists>f. map_of day_factors (dayofweek d) = Some f \<and> 0 < f"
proof -
  have "dayofweek d \<in> {0, 1, 2, 3, 4, 5, 6}"
    using dayofweek_range [of d] by auto
  also have "{0, 1, 2, 3, 4, 5, 6} = fst ` set day_factors"
    by (simp add: day_factors_def)
  finally have "dayofweek d \<in> dom (map_of day_factors)"
    by (simp add: dom_map_of_conv_image_fst)
  then obtain f where "map_of day_factors (dayofweek d) = Some f" by blast
  then show ?thesis using day_factor_pos by blast
qed

lemma seasonal_factor_bounds: "7 / 10 \<le> seasonal_factor m \<and> seasonal_factor m \<le> 13 / 10"
proof -
  define s where "s = sin (2 * pi * (of_int m - 1) / 12 + pi)"
  have "- 1 \<le> s" "s \<le> 1" unfolding s_def by (rule sin_ge_minus_one, rule sin_le_one)
  moreover have "seasonal_factor m = 1 + 3 / 10 * s"
    unfolding seasonal_factor_def s_def by simp
  ultimately show ?thesis by simp
qed

lemma year_trend_nonneg: assumes "1999 \<le> y" shows "0 \<le> year_trend y"
proof -
  define r where "r = real_of_int y"
  have "1999 \<le> r" using assms by (simp add: r_def)
  moreover have "year_trend y = 1 + (r - 2019) / 20" by (simp add: year_trend_def r_def)
  ultimately show ?thesis by argo
qed

lemma year_trend_neg: assumes "y < 1999" shows "year_trend y < 0"
proof -
  define r where "r = real_of_int y"
  have "r < 1999" using assms by (simp add: r_def)
  moreover have "year_trend y = 1 + (r - 2019) / 20" by (simp add: year_trend_def r_def)
  ultimately show ?thesis by argo
qed

lemma dt_year_lower: 
  assumes "11017 \<le> t" shows "2000 \<le> dt_year t"
proof -
  define z where "z = t + 719468"
  define era where "era = z div 146097"
  define doe where "doe = z - era * 146097"
  define yoe where "yoe = (doe - doe div 1460 + doe div 36524 - doe div 146096) div 365"
  have z: "730485 \<le> z" using assms by (simp add: z_def)
  have "730485 div 146097 \<le> z div (146097::int)" using z by (intro zdiv_mono1) simp_all
  then have era: "5 \<le> era" by (simp add: era_def)
  have "doe = z mod 146097" unfolding doe_def era_def by (simp add: minus_div_mult_eq_mod)
  then have doe: "0 \<le> doe" by simp
  have a: "doe div 1460 \<le> doe div 1" using doe by (intro zdiv_mono2) simp_all
  have b: "doe div 146096 \<le> doe div 36524" using doe by (intro zdiv_mono2) simp_all
  have "0 \<le> doe - doe div 1460 + doe div 36524 - doe div 146096" using a b by simp
  then have yoe: "0 \<le> yoe" unfolding yoe_def by (simp add: pos_imp_zdiv_nonneg_iff)
  have base: "2000 \<le> yoe + era * 400" using era yoe by simp
  have h: "2000 \<le> (if c then A + 1 else A)" if "2000 \<le> A" for c and A :: int
    using that by simp
  show ?thesis
    unfolding dt_year_def civil_from_days_def Let_def fst_conv
    by (rule h [OF base [unfolded yoe_def doe_def era_def z_def]])
qed


lemma base_demand_pos: "0 < base_demand hb"
proof (cases "map_of board_multipliers hb")
  case None
  then show ?thesis by (simp add: base_demand_def)
next
  case (Some m)
  then have "(hb, m) \<in> set board_multipliers" by (rule map_of_SomeD)
  then have "0 < m" by (auto simp: board_multipliers_def)
  with Some show ?thesis by (simp add: base_demand_def)
qed

lemma covid_factor_pos: "0 < covid_factor y"
  by (simp add: covid_factor_def)

lemma expected_nonneg:
  assumes "1999 \<le> y" "0 \<le> f" shows "0 \<le> expected_presentations hb y m f"
proof -
  have "0 \<le> seasonal_factor m" using seasonal_factor_bounds [of m] by simp
  moreover have "0 \<le> base_demand hb" using base_demand_pos [of hb] by simp
  moreover have "0 \<le> covid_factor y" using covid_factor_pos [of y] by simp
  moreover note year_trend_nonneg [OF assms(1)] assms(2)
  ultimately show ?thesis by (simp add: expected_presentations_def)
qed

lemma expected_neg:
  assumes "y < 1999" "0 < f" shows "expected_presentations hb y m f < 0"
proof -
  have "0 < seasonal_factor m" using seasonal_factor_bounds [of m] by simp
  then have "0 < base_demand hb * seasonal_factor m * f * covid_factor y"
    using base_demand_pos [of hb] covid_factor_pos [of y] assms(2) by simp
  then show ?thesis
    unfolding expected_presentations_def using year_trend_neg [OF assms(1)]
    by (rule mult_pos_neg)
qed

lemma day_expected_ok:
  assumes "11017 \<le> d" shows "\<exists>lam. day_expected hb d = Inr lam \<and> 0 \<le> lam"
proof -
  obtain f where f: "map_of day_factors (dayofweek d) = Some f" "0 < f"
    using day_factor_found by blast
  have "1999 \<le> dt_year d" using dt_year_lower [OF assms] by simp
  then have "0 \<le> expected_presentations hb (dt_year d) (dt_month d) f"
    using f(2) by (intro expected_nonneg) simp_all
  with f(1) show ?thesis by (simp add: day_expected_def)
qed


section \<open>What the loops append\<close>

lemma type_loop_rows:
  "type_loop d hb ag simd cs idxs data = Inr data' \<Longrightarrow> r \<in> set data' \<Longrightarrow>
   r \<in> set data \<or> (date r = d \<and> health_board r = hb \<and> 0 < presentations r)"
proof (induction idxs arbitrary: data)
  case Nil
  then show ?case by simp
next
  case (Cons p idxs)
  obtain i pt where p: "p = (i, pt)" by (cases p)
  from Cons.prems(1) have lt: "i < length cs"
    by (simp add: p split: if_splits)
  show ?case
  proof (cases "0 < cs ! i")
    case True
    with Cons.prems lt p
    have "type_loop d hb ag simd cs idxs
            (data @ [\<lparr>date = d, health_board = hb, age_group = ag, simd_quintile = simd,
                      presentation_type = pt, presentations = cs ! i\<rparr>]) = Inr data'"
      by simp
    from Cons.IH [OF this Cons.prems(2)] True show ?thesis by auto
  next
    case False
    with Cons.prems lt p have "type_loop d hb ag simd cs idxs data = Inr data'" by simp
    from Cons.IH [OF this Cons.prems(2)] show ?thesis .
  qed
qed

lemma simd_loop_rows:
  "simd_loop R d hb ag cs idxs data g = Inr (data', g') \<Longrightarrow> r \<in> set data' \<Longrightarrow>
   r \<in> set data \<or> (date r = d \<and> health_board r = hb \<and> 0 < presentations r)"
proof (induction idxs arbitrary: data g)
  case Nil
  then show ?case by simp
next
  case (Cons p idxs)
  obtain i q where p: "p = (i, q)" by (cases p)
  from Cons.prems(1) have lt: "i < length cs"
    by (simp add: p split: if_splits)
  show ?case
  proof (cases "0 < cs ! i")
    case True
    obtain td g1 where m: "np_multinomial R (cs ! i) type_weights g = (td, g1)"
      by (cases "np_multinomial R (cs ! i) type_weights g")
    from Cons.prems(1) lt p True m obtain mid where
      t: "type_loop d hb ag q td (enumerate 0 PRESENTATION_TYPES) data = Inr mid" and
      s: "simd_loop R d hb ag cs idxs mid g1 = Inr (data', g')"
      by (auto split: sum.splits)
    from Cons.IH [OF s Cons.prems(2)] type_loop_rows [OF t] show ?thesis by blast
  next
    case False
    with Cons.prems lt p have "simd_loop R d hb ag cs idxs data g = Inr (data', g')" by simp
    from Cons.IH [OF this Cons.prems(2)] show ?thesis .
  qed
qed

lemma age_loop_rows:
  "age_loop R d hb cs idxs data g = Inr (data', g') \<Longrightarrow> r \<in> set data' \<Longrightarrow>
   r \<in> set data \<or> (date r = d \<and> health_board r = hb \<and> 0 < presentations r)"
proof (induction idxs arbitrary: data g)
  case Nil
  then show ?case by simp
next
  case (Cons p idxs)
  obtain i ag where p: "p = (i, ag)" by (cases p)
  from Cons.prems(1) have lt: "i < length cs"
    by (simp add: p split: if_splits)
  show ?case
  proof (cases "0 < cs ! i")
    case True
    obtain sd g1 where m: "np_multinomial R (cs ! i) simd_weights g = (sd, g1)"
      by (cases "np_multinomial R (cs ! i) simd_weights g")
    from Cons.prems(1) lt p True m obtain mid g2 where
      t: "simd_loop R d hb ag sd (enumerate 0 SIMD_QUINTILES) data g1 = Inr (mid, g2)" and
      s: "age_loop R d hb cs idxs mid g2 = Inr (data', g')"
      by (auto split: sum.splits)
    from Cons.IH [OF s Cons.prems(2)] simd_loop_rows [OF t] show ?thesis by blast
  next
    case False
    with Cons.prems lt p have "age_loop R d hb cs idxs data g = Inr (data', g')" by simp
    from Cons.IH [OF this Cons.prems(2)] show ?thesis .
  qed
qed

lemma generate_day_rows:
  "generate_day R hb d data g = Inr (data', g') \<Longrightarrow> r \<in> set data' \<Longrightarrow>
   r \<in> set data \<or> (date r = d \<and> health_board r = hb \<and> 0 < presentations r)"
  unfolding generate_day_def
  by (auto split: sum.splits if_splits prod.splits simp: Let_def dest: age_loop_rows)

lemma dates_loop_rows:
  "dates_loop R hb ds data g = Inr (data', g') \<Longrightarrow> r \<in> set data' \<Longrightarrow>
   r \<in> set data \<or> (date r \<in> set ds \<and> health_board r = hb \<and> 0 < presentations r)"
proof (induction ds arbitrary: data g)
  case Nil
  then show ?case by simp
next
  case (Cons d ds)
  from Cons.prems(1) obtain mid g1 where
    t: "generate_day R hb d data g = Inr (mid, g1)" and
    s: "dates_loop R hb ds mid g1 = Inr (data', g')"
    by (auto split: sum.splits)
  from Cons.IH [OF s Cons.prems(2)] generate_day_rows [OF t] show ?case by auto
qed

lemma generate_rows:
  assumes "generate_time_series_data R s e hb g = Inr (df, g')" "r \<in> set df"
  shows "s \<le> date r \<and> date r \<le> e \<and> health_board r = hb \<and> 0 < presentations r"
  using dates_loop_rows [OF assms [unfolded generate_time_series_data_def]] by simp


section \<open>The loops run to completion and conserve totals\<close>

lemma sum_presentations_simps:
  "sum_presentations [] = 0"
  "sum_presentations (r # rs) = presentations r + sum_presentations rs"
  "sum_presentations (xs @ ys) = sum_presentations xs + sum_presentations ys"
  by (simp_all add: sum_presentations_def)

lemma type_loop_total:
  assumes "k + length xs = length cs" "\<forall>x \<in> set cs. 0 \<le> x"
  shows "\<exists>new. type_loop d hb ag simd cs (enumerate k xs) data = Inr (data @ new) \<and>
               sum_presentations new = sum_list (drop k cs) \<and>
      (\<forall>r \<in> set new. date r = d \<and> health_board r = hb)"
  using assms(1)
proof (induction xs arbitrary: k data)
  case Nil
  then show ?case by (simp add: sum_presentations_simps)
next
  case (Cons x xs)
  then have lt: "k < length cs" and k': "Suc k + length xs = length cs" by simp_all
  have dr: "drop k cs = cs ! k # drop (Suc k) cs"
    using lt by (simp add: Cons_nth_drop_Suc)
  have nn: "0 \<le> cs ! k" using assms(2) lt by simp
  show ?case
  proof (cases "0 < cs ! k")
    case True
    let ?row = "\<lparr>date = d, health_board = hb, age_group = ag, simd_quintile = simd,
                  presentation_type = x, presentations = cs ! k\<rparr>"
    from Cons.IH [OF k', of "data @ [?row]"] obtain new where
      "type_loop d hb ag simd cs (enumerate (Suc k) xs) (data @ [?row]) =
         Inr ((data @ [?row]) @ new)"
      "sum_presentations new = sum_list (drop (Suc k) cs) \<and>
      (\<forall>r \<in> set new. date r = d \<and> health_board r = hb)"
      by blast
    then have "type_loop d hb ag simd cs (enumerate k (x # xs)) data = Inr (data @ (?row # new)) \<and>
               sum_presentations (?row # new) = sum_list (drop k cs) \<and>
      (\<forall>r \<in> set (?row # new). date r = d \<and> health_board r = hb)"
      using lt True dr by (simp add: sum_presentations_simps)
    then show ?thesis by blast
  next
    case False
    with nn have z: "cs ! k = 0" by simp
    from Cons.IH [OF k', of data] obtain new where
      "type_loop d hb ag simd cs (enumerate (Suc k) xs) data = Inr (data @ new)"
      "sum_presentations new = sum_list (drop (Suc k) cs) \<and>
      (\<forall>r \<in> set new. date r = d \<and> health_board r = hb)"
      by blast
    then have "type_loop d hb ag simd cs (enumerate k (x # xs)) data = Inr (data @ new) \<and>
               sum_presentations new = sum_list (drop k cs) \<and>
      (\<forall>r \<in> set new. date r = d \<and> health_board r = hb)"
      using lt z dr by simp
    then show ?thesis by blast
  qed
qed

lemma multinomial_contractD:
  assumes "multinomial_contract R" "0 \<le> n" "pvals \<noteq> []"
    "np_multinomial R n pvals g = (cs, g')"
  shows "length cs = length pvals" "\<forall>x \<in> set cs. 0 \<le> x" "sum_list cs = n"
  using assms unfolding multinomial_contract_def by (metis fst_conv)+

lemma types_total:
  assumes "multinomial_contract R" "0 \<le> n"
    "np_multinomial R n type_weights g = (cs, g')"
  shows "\<exists>new. type_loop d hb ag simd cs (enumerate 0 PRESENTATION_TYPES) data = Inr (data @ new) \<and>
               sum_presentations new = n \<and>
      (\<forall>r \<in> set new. date r = d \<and> health_board r = hb)"
proof -
  have ne: "type_weights \<noteq> []" by (simp add: type_weights_def)
  note c = multinomial_contractD [OF assms(1,2) ne assms(3)]
  have "0 + length PRESENTATION_TYPES = length cs"
    using c(1) by (simp add: PRESENTATION_TYPES_def type_weights_def)
  from type_loop_total [OF this c(2)] c(3) show ?thesis by simp
qed

lemma simd_loop_total:
  assumes R: "multinomial_contract R" and "k + length xs = length cs" "\<forall>x \<in> set cs. 0 \<le> x"
  shows "\<exists>new g'. simd_loop R d hb ag cs (enumerate k xs) data g = Inr (data @ new, g') \<and>
               sum_presentations new = sum_list (drop k cs) \<and>
      (\<forall>r \<in> set new. date r = d \<and> health_board r = hb)"
  using assms(2)
proof (induction xs arbitrary: k data g)
  case Nil
  then show ?case by (simp add: sum_presentations_simps)
next
  case (Cons x xs)
  then have lt: "k < length cs" and k': "Suc k + length xs = length cs" by simp_all
  have dr: "drop k cs = cs ! k # drop (Suc k) cs"
    using lt by (simp add: Cons_nth_drop_Suc)
  have nn: "0 \<le> cs ! k" using assms(3) lt by simp
  show ?case
  proof (cases "0 < cs ! k")
    case True
    obtain td g1 where m: "np_multinomial R (cs ! k) type_weights g = (td, g1)"
      by (cases "np_multinomial R (cs ! k) type_weights g")
    from types_total [OF R nn m, of d hb ag x data] obtain new1 where
      t: "type_loop d hb ag x td (enumerate 0 PRESENTATION_TYPES) data = Inr (data @ new1)"
         "sum_presentations new1 = cs ! k \<and>
      (\<forall>r \<in> set new1. date r = d \<and> health_board r = hb)"
      by blast
    from Cons.IH [OF k', of "data @ new1" g1] obtain new2 g' where
      s: "simd_loop R d hb ag cs (enumerate (Suc k) xs) (data @ new1) g1 =
           Inr ((data @ new1) @ new2, g')"
         "sum_presentations new2 = sum_list (drop (Suc k) cs) \<and>
      (\<forall>r \<in> set new2. date r = d \<and> health_board r = hb)"
      by blast
    have "simd_loop R d hb ag cs (enumerate k (x # xs)) data g = Inr (data @ (new1 @ new2), g') \<and>
          sum_presentations (new1 @ new2) = sum_list (drop k cs) \<and>
      (\<forall>r \<in> set (new1 @ new2). date r = d \<and> health_board r = hb)"
      using lt True dr m t s by (auto simp: sum_presentations_simps)
    then show ?thesis by blast
  next
    case False
    with nn have z: "cs ! k = 0" by simp
    from Cons.IH [OF k', of data g] obtain new g' where
      "simd_loop R d hb ag cs (enumerate (Suc k) xs) data g = Inr (data @ new, g')"
      "sum_presentations new = sum_list (drop (Suc k) cs) \<and>
      (\<forall>r \<in> set new. date r = d \<and> health_board r = hb)"
      by blast
    then have "simd_loop R d hb ag cs (enumerate k (x # xs)) data g = Inr (data @ new, g') \<and>
               sum_presentations new = sum_list (drop k cs) \<and>
      (\<forall>r \<in> set new. date r = d \<and> health_board r = hb)"
      using lt z dr by simp
    then show ?thesis by blast
  qed
qed

lemma simd_total:
  assumes "multinomial_contract R" "0 \<le> n"
    "np_multinomial R n simd_weights g = (cs, g1)"
  shows "\<exists>new g'. simd_loop R d hb ag cs (enumerate 0 SIMD_QUINTILES) data g1 = Inr (data @ new, g') \<and>
               sum_presentations new = n \<and>
      (\<forall>r \<in> set new. date r = d \<and> health_board r = hb)"
proof -
  have ne: "simd_weights \<noteq> []" by (simp add: simd_weights_def)
  note c = multinomial_contractD [OF assms(1,2) ne assms(3)]
  have "0 + length SIMD_QUINTILES = length cs"
    using c(1) by (simp add: SIMD_QUINTILES_def simd_weights_def)
  from simd_loop_total [OF assms(1) this c(2)] c(3) show ?thesis by simp
qed

lemma age_loop_total:
  assumes R: "multinomial_contract R" and "k + length xs = length cs" "\<forall>x \<in> set cs. 0 \<le> x"
  shows "\<exists>new g'. age_loop R d hb cs (enumerate k xs) data g = Inr (data @ new, g') \<and>
               sum_presentations new = sum_list (drop k cs) \<and>
      (\<forall>r \<in> set new. date r = d \<and> health_board r = hb)"
  using assms(2)
proof (induction xs arbitrary: k data g)
  case Nil
  then show ?case by (simp add: sum_presentations_simps)
next
  case (Cons x xs)
  then have lt: "k < length cs" and k': "Suc k + length xs = length cs" by simp_all
  have dr: "drop k cs = cs ! k # drop (Suc k) cs"
    using lt by (simp add: Cons_nth_drop_Suc)
  have nn: "0 \<le> cs ! k" using assms(3) lt by simp
  show ?case
  proof (cases "0 < cs ! k")
    case True
    obtain sd g1 where m: "np_multinomial R (cs ! k) simd_weights g = (sd, g1)"
      by (cases "np_multinomial R (cs ! k) simd_weights g")
    from simd_total [OF R nn m, of d hb x data] obtain new1 g2 where
      t: "simd_loop R d hb x sd (enumerate 0 SIMD_QUINTILES) data g1 = Inr (data @ new1, g2)"
         "sum_presentations new1 = cs ! k \<and>
      (\<forall>r \<in> set new1. date r = d \<and> health_board r = hb)"
      by blast
    from Cons.IH [OF k', of "data @ new1" g2] obtain new2 g' where
      s: "age_loop R d hb cs (enumerate (Suc k) xs) (data @ new1) g2 =
           Inr ((data @ new1) @ new2, g')"
         "sum_presentations new2 = sum_list (drop (Suc k) cs) \<and>
      (\<forall>r \<in> set new2. date r = d \<and> health_board r = hb)"
      by blast
    have "age_loop R d hb cs (enumerate k (x # xs)) data g = Inr (data @ (new1 @ new2), g') \<and>
          sum_presentations (new1 @ new2) = sum_list (drop k cs) \<and>
      (\<forall>r \<in> set (new1 @ new2). date r = d \<and> health_board r = hb)"
      using lt True dr m t s by (auto simp: sum_presentations_simps)
    then show ?thesis by blast
  next
    case False
    with nn have z: "cs ! k = 0" by simp
    from Cons.IH [OF k', of data g] obtain new g' where
      "age_loop R d hb cs (enumerate (Suc k) xs) data g = Inr (data @ new, g')"
      "sum_presentations new = sum_list (drop (Suc k) cs) \<and>
      (\<forall>r \<in> set new. date r = d \<and> health_board r = hb)"
      by blast
    then have "age_loop R d hb cs (enumerate k (x # xs)) data g = Inr (data @ new, g') \<and>
               sum_presentations new = sum_list (drop k cs) \<and>
      (\<forall>r \<in> set new. date r = d \<and> health_board r = hb)"
      using lt z dr by simp
    then show ?thesis by blast
  qed
qed

lemma generate_day_total:
  assumes R: "multinomial_contract R" and lam: "day_expected hb d = Inr lam" "0 \<le> lam"
  shows "\<exists>new g'. generate_day R hb d data g = Inr (data @ new, g') \<and>
               sum_presentations new = max 0 (fst (np_poisson R lam g)) \<and>
      (\<forall>r \<in> set new. date r = d \<and> health_board r = hb)"
proof -
  obtain drawn g1 where p: "np_poisson R lam g = (drawn, g1)"
    by (cases "np_poisson R lam g")
  obtain cs g2 where m: "np_multinomial R (max 0 drawn) age_weights g1 = (cs, g2)"
    by (cases "np_multinomial R (max 0 drawn) age_weights g1")
  have ne: "age_weights \<noteq> []" by (simp add: age_weights_def)
  have nn: "0 \<le> max 0 drawn" by simp
  note c = multinomial_contractD [OF R nn ne m]
  have "0 + length AGE_GROUPS = length cs"
    using c(1) by (simp add: AGE_GROUPS_def age_weights_def)
  from age_loop_total [OF R this c(2), of d hb data g2] obtain new g' where
    "age_loop R d hb cs (enumerate 0 AGE_GROUPS) data g2 = Inr (data @ new, g')"
    "sum_presentations new = sum_list cs \<and>
      (\<forall>r \<in> set new. date r = d \<and> health_board r = hb)"
    by auto
  then have "generate_day R hb d data g = Inr (data @ new, g') \<and>
             sum_presentations new = max 0 (fst (np_poisson R lam g)) \<and>
      (\<forall>r \<in> set new. date r = d \<and> health_board r = hb)"
    using lam p m c(3) by (simp add: generate_day_def)
  then show ?thesis by blast
qed

lemma dates_loop_total:
  assumes R: "multinomial_contract R" and "\<forall>d \<in> set ds. 11017 \<le> d"
  shows "\<exists>new g'. dates_loop R hb ds data g = Inr (data @ new, g')"
  using assms(2)
proof (induction ds arbitrary: data g)
  case Nil
  then show ?case by simp
next
  case (Cons d ds)
  then have "11017 \<le> d" by simp
  from day_expected_ok [OF this, of hb] obtain lam where
    lam: "day_expected hb d = Inr lam" "0 \<le> lam" by blast
  from generate_day_total [OF R lam, of data g] obtain new1 g1 where
    t: "generate_day R hb d data g = Inr (data @ new1, g1)" by blast
  from Cons.IH [of "data @ new1" g1] Cons.prems obtain new2 g' where
    "dates_loop R hb ds (data @ new1) g1 = Inr ((data @ new1) @ new2, g')" by auto
  with t have "dates_loop R hb (d # ds) data g = Inr (data @ (new1 @ new2), g')" by simp
  then show ?case by blast
qed

lemma generate_total:
  assumes "multinomial_contract R" "11017 \<le> s"
  shows "\<exists>df g'. generate_time_series_data R s e hb g = Inr (df, g')"
proof -
  have "\<forall>d \<in> set [s..e]. 11017 \<le> d" using assms(2) by simp
  from dates_loop_total [OF assms(1) this, of hb "[]" g] show ?thesis
    by (auto simp: generate_time_series_data_def)
qed


section \<open>Properties of group-by\<close>

lemma map_of_agg_add:
  "map_of (agg_add k v acc) k' =
     (if k' = k then Some ((case map_of acc k of None \<Rightarrow> 0 | Some s \<Rightarrow> s) + v)
      else map_of acc k')"
proof (cases "map_of acc k")
  case None
  then show ?thesis by (simp add: agg_add_def map_add_def split: option.splits)
next
  case (Some s)
  have "map_of (map (\<lambda>(k', s'). if k' = k then (k', s' + v) else (k', s')) acc) k' =
        (if k' = k then map_option (\<lambda>s. s + v) (map_of acc k) else map_of acc k')"
    by (induction acc) auto
  with Some show ?thesis by (simp add: agg_add_def)
qed

lemma keys_agg_add: "fst ` set (agg_add k v acc) = insert k (fst ` set acc)"
proof (cases "map_of acc k")
  case None
  then show ?thesis by (simp add: agg_add_def)
next
  case (Some s)
  then have "k \<in> fst ` set acc" using map_of_SomeD by force
  moreover have "fst ` set (map (\<lambda>(k', s'). if k' = k then (k', s' + v) else (k', s')) acc) =
                 fst ` set acc"
    by (force split: if_splits)
  ultimately show ?thesis using Some by (auto simp: agg_add_def)
qed

lemma distinct_agg_add:
  assumes "distinct (map fst acc)" shows "distinct (map fst (agg_add k v acc))"
proof (cases "map_of acc k")
  case None
  then have "k \<notin> fst ` set acc" by (simp add: map_of_eq_None_iff)
  with assms None show ?thesis by (simp add: agg_add_def)
next
  case (Some s)
  have "map fst (map (\<lambda>(k', s'). if k' = k then (k', s' + v) else (k', s')) acc) = map fst acc"
    by (induction acc) auto
  with assms Some show ?thesis by (simp add: agg_add_def del: map_map)
qed

lemma fold_agg_distinct:
  "distinct (map fst acc) \<Longrightarrow>
   distinct (map fst (fold (\<lambda>r acc. agg_add (key r) (val r) acc) rows acc))"
  by (induction rows arbitrary: acc) (simp_all add: distinct_agg_add)

lemma fold_agg_lookup:
  "map_of (fold (\<lambda>r acc. agg_add (key r) (val r) acc) rows acc) k =
     (if k \<in> key ` set rows
      then Some ((case map_of acc k of None \<Rightarrow> 0 | Some s \<Rightarrow> s) +
                 sum_list (map val (filter (\<lambda>r. key r = k) rows)))
      else map_of acc k)"
proof (induction rows arbitrary: acc)
  case Nil
  then show ?case by simp
next
  case (Cons r rows)
  have "filter (\<lambda>r. key r = k') rows = []" if "k' \<notin> key ` set rows" for k'
    using that by (auto simp: filter_empty_conv)
  then show ?case
    by (auto simp: Cons.IH map_of_agg_add split: option.splits)
qed

lemma groupby_sum_distinct: "distinct (map fst (groupby_sum key val rows))"
proof -
  let ?acc = "fold (\<lambda>r acc. agg_add (key r) (val r) acc) rows []"
  have "distinct (map fst ?acc)" by (rule fold_agg_distinct) simp
  then show ?thesis
    by (simp add: groupby_sum_def distinct_map)
qed

lemma groupby_sum_member:
  "(k, t) \<in> set (groupby_sum key val rows) \<longleftrightarrow>
   k \<in> key ` set rows \<and> t = sum_list (map val (filter (\<lambda>r. key r = k) rows))"
proof -
  let ?acc = "fold (\<lambda>r acc. agg_add (key r) (val r) acc) rows []"
  have d: "distinct (map fst ?acc)" by (rule fold_agg_distinct) simp
  have "(k, t) \<in> set (groupby_sum key val rows) \<longleftrightarrow> (k, t) \<in> set ?acc"
    by (simp add: groupby_sum_def)
  also have "\<dots> \<longleftrightarrow> map_of ?acc k = Some t" using d by simp
  also have "\<dots> \<longleftrightarrow> k \<in> key ` set rows \<and> t = sum_list (map val (filter (\<lambda>r. key r = k) rows))"
    by (auto simp: fold_agg_lookup)
  finally show ?thesis .
qed

lemma groupby_sum_keys: "fst ` set (groupby_sum key val rows) = key ` set rows"
proof (intro set_eqI iffI)
  fix k assume "k \<in> fst ` set (groupby_sum key val rows)"
  then obtain t where "(k, t) \<in> set (groupby_sum key val rows)" by auto
  then show "k \<in> key ` set rows" by (simp add: groupby_sum_member)
next
  fix k assume "k \<in> key ` set rows"
  then have "(k, sum_list (map val (filter (\<lambda>r. key r = k) rows))) \<in>
             set (groupby_sum key val rows)"
    by (simp add: groupby_sum_member)
  then show "k \<in> fst ` set (groupby_sum key val rows)" by force
qed

lemma groupby_sum_sorted: "sorted (map fst (groupby_sum key val rows))"
  by (simp add: groupby_sum_def)

section \<open>The example generator\<close>

lemma example_rng_simps:
  "np_seed example_rng s g = s"
  "np_poisson example_rng lam g = (3, Suc g)"
  "np_multinomial example_rng n [p] g = ([n], Suc g)"
  "np_multinomial example_rng n (p # q # rest) g =
     ((n - n div 2) # (n div 2) # map (\<lambda>_. 0) rest, Suc g)"
  by (simp_all add: example_rng_def)

lemma example_rng_contract: "multinomial_contract example_rng"
  unfolding multinomial_contract_def
proof (intro allI impI)
  fix n :: int and pvals :: "real list" and g :: nat
  assume a: "0 \<le> n \<and> pvals \<noteq> []"
  then obtain p ps where pv: "pvals = p # ps" by (cases pvals) auto
  from a have n: "0 \<le> n" by simp
  show "length (fst (np_multinomial example_rng n pvals g)) = length pvals \<and>
        (\<forall>x\<in>set (fst (np_multinomial example_rng n pvals g)). 0 \<le> x) \<and>
        sum_list (fst (np_multinomial example_rng n pvals g)) = n"
  proof (cases ps)
    case Nil
    with a pv show ?thesis by (simp add: example_rng_simps)
  next
    case (Cons q rest)
    have "sum_list (map (\<lambda>_. 0::int) rest) = 0" by (induction rest) simp_all
    moreover from n have "0 \<le> n div 2" by simp
    moreover from n have "n div 2 \<le> n" by presburger
    ultimately show ?thesis using pv Cons by (auto simp: example_rng_simps)
  qed
qed

lemma example_day:
  assumes "day_expected hb d = Inr lam" "0 \<le> lam"
  shows "generate_day example_rng hb d data g = Inr (data @ example_rows d hb, g + 7)"
  using assms
  by (simp add: generate_day_def example_rng_simps age_weights_def
      simd_weights_def type_weights_def AGE_GROUPS_def SIMD_QUINTILES_def PRESENTATION_TYPES_def
      example_rows_def)

lemma example_dates:
  assumes "\<forall>d \<in> set ds. 11017 \<le> d"
  shows "dates_loop example_rng hb ds data g =
           Inr (data @ concat (map (\<lambda>d. example_rows d hb) ds), g + 7 * length ds)"
  using assms
proof (induction ds arbitrary: data g)
  case Nil
  then show ?case by simp
next
  case (Cons d ds)
  then have "11017 \<le> d" by simp
  from day_expected_ok [OF this, of hb] obtain lam where
    "day_expected hb d = Inr lam" "0 \<le> lam" by blast
  from example_day [OF this] Cons show ?case by simp
qed

lemma example_run:
  assumes "11017 \<le> s"
  shows "generate_time_series_data example_rng s e hb g =
           Inr (concat (map (\<lambda>d. example_rows d hb) [s..e]), g + 7 * length [s..e])"
proof -
  have "\<forall>d \<in> set [s..e]. 11017 \<le> d" using assms by simp
  from example_dates [OF this, of hb "[]" g] show ?thesis
    by (simp add: generate_time_series_data_def)
qed

lemma example_run_one_day:
  "generate_time_series_data example_rng 18262 18262 hb 0 = Inr (example_rows 18262 hb, 7)"
  using example_run [of 18262 18262 hb 0] by simp

lemma example_boards:
  assumes "11017 \<le> s"
  shows "boards_loop example_rng s e boards all_data g =
           Inr (all_data @ map (\<lambda>hb. concat (map (\<lambda>d. example_rows d hb) [s..e])) boards,
                g + 7 * length [s..e] * length boards)"
proof (induction boards arbitrary: all_data g)
  case Nil
  then show ?case by simp
next
  case (Cons hb boards)
  show ?case by (simp add: example_run [OF assms] Cons.IH algebra_simps)
qed

lemma example_rows_nonempty: "example_rows d hb \<noteq> []"
  by (simp add: example_rows_def)

lemma example_dataset:
  assumes "11017 \<le> s" "s \<le> e" "boards \<noteq> []"
  shows "generate_dataset example_rng sort_values s e boards g =
           Inr (map add_calendar_columns
                  (sort_values
                     (concat (map (\<lambda>hb. concat (map (\<lambda>d. example_rows d hb) [s..e])) boards))),
                g + 7 * length [s..e] * length boards)"
proof -
  obtain hb rest where b: "boards = hb # rest" using assms(3) by (cases boards) auto
  have "[s..e] = s # [s + 1..e]" using assms(2) by (simp add: upto_rec1)
  then have "concat (map (\<lambda>hb. concat (map (\<lambda>d. example_rows d hb) [s..e])) boards) \<noteq> []"
    by (simp add: b example_rows_nonempty)
  then show ?thesis
    using assms(3) by (simp add: generate_dataset_def example_boards [OF assms(1)] Let_def)
qed

lemma upto_week: "[18262..18268] = [18262, 18263, 18264, 18265, 18266, 18267, 18268]"
  by (simp add: upto_rec1)

lemma example_table_run:
  "generate_dataset example_rng (sort_key date) 18262 18268 [''NHS Fife''] 0 =
     Inr (example_table, 49)"
proof -
  have "(11017::int) \<le> 18262" "(18262::int) \<le> 18268" "[''NHS Fife''] \<noteq> []" by simp_all
  from example_dataset [OF this, of "sort_key date" 0] show ?thesis
    by (simp add: example_table_def upto_week)
qed

lemma dataset_shape:
  assumes "generate_dataset R sort_values s e boards g = Inr (df, g')"
  shows "\<exists>rows. rows \<noteq> [] \<and> df = map add_calendar_columns (sort_values rows)"
proof (cases "boards_loop R s e boards [] g")
  case (Inl err)
  with assms show ?thesis by (simp add: generate_dataset_def)
next
  case (Inr res)
  obtain all_data g1 where "res = (all_data, g1)" by (cases res)
  with Inr assms have "concat all_data \<noteq> [] \<and>
      df = map add_calendar_columns (sort_values (concat all_data))"
    by (simp add: generate_dataset_def Let_def split: if_splits)
  then show ?thesis by blast
qed

lemma dataset_rows:
  assumes "generate_dataset R sort_values s e boards g = Inr (df, g')" "r \<in> set df"
  shows "\<exists>p. r = add_calendar_columns p"
proof -
  from dataset_shape [OF assms(1)] obtain rows where
    "df = map add_calendar_columns (sort_values rows)" by blast
  with assms(2) show ?thesis by auto
qed

lemma example_complete:
  "\<exists>df g'. generate_complete_dataset example_rng (sort_key date) g = Inr (df, g') \<and> df \<noteq> []"
proof -
  have s: "days_from_civil 2019 1 1 = 17897" and e: "days_from_civil 2024 10 31 = 20027"
    by code_simp+
  have "HEALTH_BOARDS \<noteq> []" by (simp add: HEALTH_BOARDS_def)
  have "(11017::int) \<le> 17897" "(17897::int) \<le> 20027" by simp_all
  from example_dataset [OF this \<open>HEALTH_BOARDS \<noteq> []\<close>, of "sort_key date" g]
  obtain df g' where
    r: "generate_dataset example_rng (sort_key date) 17897 20027 HEALTH_BOARDS g = Inr (df, g')"
    by blast
  from dataset_shape [OF r] obtain rows where
    "rows \<noteq> []" "df = map add_calendar_columns (sort_key date rows)" by blast
  then have "length df = length rows" "0 < length rows" by simp_all
  then have "df \<noteq> []" by auto
  with r show ?thesis by (simp add: generate_complete_dataset_def s e)
qed

lemma add_calendar_columns_simps:
  "date (add_calendar_columns p) = date p"
  "health_board (add_calendar_columns p) = health_board p"
  "presentations (add_calendar_columns p) = presentations p"
  "year (add_calendar_columns p) = dt_year (date p)"
  "month (add_calendar_columns p) = dt_month (date p)"
  "day_of_week (add_calendar_columns p) = dayofweek (date p)"
  "week_of_year (add_calendar_columns p) = isocalendar_week (date p)"
  "is_weekend (add_calendar_columns p) =
     (if dayofweek (date p) = 5 \<or> dayofweek (date p) = 6 then 1 else 0)"
  by (simp_all add: add_calendar_columns_def presentation.defs full_row.defs)

lemma civil_18262: "civil_from_days 18262 = (2020, 1, 1)" by code_simp
lemma dow_18262: "dayofweek 18262 = 2" by code_simp

lemma seasonal_january: "seasonal_factor 1 = 1"
  by (simp add: seasonal_factor_def)

lemma day_expected_18262: "day_expected hb 18262 = Inr (base_demand hb * 147 / 100)"
  by (simp add: day_expected_def civil_18262 dow_18262 day_factors_def dt_year_def dt_month_def
      expected_presentations_def seasonal_january covid_factor_def year_trend_def)

lemma base_demand_fife: "base_demand ''NHS Fife'' = 50"
  by (simp add: base_demand_def board_multipliers_def)

lemma example_daily:
  "daily_summary example_table =
     [((18262, ''NHS Fife''), 3), ((18263, ''NHS Fife''), 3), ((18264, ''NHS Fife''), 3),
      ((18265, ''NHS Fife''), 3), ((18266, ''NHS Fife''), 3), ((18267, ''NHS Fife''), 3),
      ((18268, ''NHS Fife''), 3)]"
  by code_simp

section \<open>The seasonal factor, month by month\<close>

lemma seasonal_factor_alt: "seasonal_factor m = 1 - 3 / 10 * sin (pi * (of_int m - 1) / 6)"
proof -
  have e: "2 * pi * (of_int m - 1) / 12 = pi * (of_int m - 1) / 6" by simp
  have "seasonal_factor m = 1.0 + 0.3 * sin (pi * (of_int m - 1) / 6 + pi)"
    unfolding seasonal_factor_def e ..
  also have "\<dots> = 1.0 + 0.3 * (- sin (pi * (of_int m - 1) / 6))"
    by (simp only: sin_periodic_pi)
  also have "\<dots> = 1 - 3 / 10 * sin (pi * (of_int m - 1) / 6)" by simp
  finally show ?thesis .
qed

lemma seasonal_values:
  "seasonal_factor 2 = 17 / 20"
  "seasonal_factor 3 = 1 - 3 / 20 * sqrt 3"
  "seasonal_factor 6 = 17 / 20"
  "seasonal_factor 7 = 1"
  "seasonal_factor 8 = 23 / 20"
proof -
  have a: "sin (pi / 6) = 1 / 2" by (rule sin_30)
  have b: "sin (pi / 3) = sqrt 3 / 2" by (rule sin_60)
  have "sin (pi * 5 / 6) = sin (pi - pi / 6)" by (rule arg_cong [where f = sin]) simp
  also have "\<dots> = sin (pi / 6)" by (rule sin_pi_minus)
  finally have c: "sin (pi * 5 / 6) = 1 / 2" by (simp only: a)
  have "sin (pi * 7 / 6) = sin (pi / 6 + pi)" by (rule arg_cong [where f = sin]) simp
  also have "\<dots> = - sin (pi / 6)" by (rule sin_periodic_pi)
  finally have d: "sin (pi * 7 / 6) = - (1 / 2)" by (simp only: a)
  show "seasonal_factor 2 = 17 / 20" using a by (simp add: seasonal_factor_alt)
  show "seasonal_factor 3 = 1 - 3 / 20 * sqrt 3" using b by (simp add: seasonal_factor_alt)
  show "seasonal_factor 6 = 17 / 20" using c by (simp add: seasonal_factor_alt)
  show "seasonal_factor 7 = 1" by (simp add: seasonal_factor_alt)
  show "seasonal_factor 8 = 23 / 20" using d by (simp add: seasonal_factor_alt)
qed

lemma mean_expected_quarters:
  "mean_expected hb yr f [1, 2, 3] =
     base_demand hb * f * covid_factor yr * year_trend yr * ((57 / 20 - 3 / 20 * sqrt 3) / 3)"
  "mean_expected hb yr f [6, 7, 8] = base_demand hb * f * covid_factor yr * year_trend yr"
  by (simp_all add: mean_expected_def expected_presentations_def seasonal_values
      seasonal_january algebra_simps)

lemma winter_below_summer:
  assumes "1999 < yr" "0 < f"
  shows "mean_expected hb yr f [1, 2, 3] < mean_expected hb yr f [6, 7, 8]"
proof -
  define r where "r = real_of_int yr"
  have "1999 < r" using assms(1) by (simp add: r_def)
  moreover have "year_trend yr = 1 + (r - 2019) / 20" by (simp add: year_trend_def r_def)
  ultimately have t: "0 < year_trend yr" by argo
  have k: "0 < base_demand hb * f * covid_factor yr * year_trend yr"
    using base_demand_pos [of hb] covid_factor_pos [of yr] assms(2) t by simp
  have "0 < sqrt 3" by simp
  then have "(57 / 20 - 3 / 20 * sqrt 3) / 3 < (1::real)" by argo
  from mult_strict_left_mono [OF this k] show ?thesis
    by (simp only: mean_expected_quarters mult_1_right)
qed

section \<open>Days before 1999 and unknown regions\<close>

lemma generate_day_before_1999:
  assumes "dt_year d < 1999"
  shows "generate_day R hb d data g = Inl ValueError"
proof -
  obtain f where f: "map_of day_factors (dayofweek d) = Some f" "0 < f"
    using day_factor_found by blast
  have "expected_presentations hb (dt_year d) (dt_month d) f < 0"
    using assms f(2) by (rule expected_neg)
  with f(1) show ?thesis by (simp add: generate_day_def day_expected_def)
qed

lemma civil_10227: "civil_from_days 10227 = (1998, 1, 1)" by code_simp
lemma dow_10227: "dayofweek 10227 = 3" by code_simp

lemma unknown_board_multiplier:
  assumes "hb \<notin> set HEALTH_BOARDS" shows "map_of board_multipliers hb = None"
proof -
  have "fst ` set board_multipliers \<subseteq> set HEALTH_BOARDS"
    by (simp add: board_multipliers_def HEALTH_BOARDS_def)
  with assms have "hb \<notin> fst ` set board_multipliers" by blast
  then show ?thesis by (simp add: map_of_eq_None_iff)
qed

section \<open>A region is used only through its multiplier\<close>

lemma with_board_simps:
  "with_board hb [] = []"
  "with_board hb (xs @ ys) = with_board hb xs @ with_board hb ys"
  "with_board hb [\<lparr>date = d, health_board = hb0, age_group = ag, simd_quintile = q,
                   presentation_type = pt, presentations = c\<rparr>] =
     [\<lparr>date = d, health_board = hb, age_group = ag, simd_quintile = q,
       presentation_type = pt, presentations = c\<rparr>]"
  by (simp_all add: with_board_def)

lemma type_loop_board:
  "type_loop d hb ag simd cs idxs (with_board hb data) =
     (case type_loop d hb0 ag simd cs idxs data of
        Inl err \<Rightarrow> Inl err
      | Inr data' \<Rightarrow> Inr (with_board hb data'))"
proof (induction idxs arbitrary: data)
  case Nil
  show ?case by simp
next
  case (Cons p idxs)
  obtain i pt where p: "p = (i, pt)" by (cases p)
  let ?row = "\<lambda>b. \<lparr>date = d, health_board = b, age_group = ag, simd_quintile = simd,
                    presentation_type = pt, presentations = cs ! i\<rparr>"
  have "with_board hb data @ [?row hb] = with_board hb (data @ [?row hb0])"
    by (simp add: with_board_simps)
  then show ?case
    using Cons.IH [of data] Cons.IH [of "data @ [?row hb0]"] by (simp add: p Let_def)
qed

lemma simd_loop_board:
  "simd_loop R d hb ag cs idxs (with_board hb data) g =
     as_board hb (simd_loop R d hb0 ag cs idxs data g)"
proof (induction idxs arbitrary: data g)
  case Nil
  show ?case by (simp add: as_board_def)
next
  case (Cons p idxs)
  obtain i q where p: "p = (i, q)" by (cases p)
  obtain td g1 where m: "np_multinomial R (cs ! i) type_weights g = (td, g1)"
    by (cases "np_multinomial R (cs ! i) type_weights g")
  show ?case
  proof (cases "type_loop d hb0 ag q td (enumerate 0 PRESENTATION_TYPES) data")
    case (Inl err)
    then show ?thesis
      using Cons.IH [of data g] by (simp add: p m Let_def type_loop_board [where ?hb0.0 = hb0] as_board_def)
  next
    case (Inr mid)
    then show ?thesis
      using Cons.IH [of data g] Cons.IH [of mid g1]
      by (simp add: p m Let_def type_loop_board [where ?hb0.0 = hb0] as_board_def)
  qed
qed

lemma age_loop_board:
  "age_loop R d hb cs idxs (with_board hb data) g =
     as_board hb (age_loop R d hb0 cs idxs data g)"
proof (induction idxs arbitrary: data g)
  case Nil
  show ?case by (simp add: as_board_def)
next
  case (Cons p idxs)
  obtain i ag where p: "p = (i, ag)" by (cases p)
  obtain sd g1 where m: "np_multinomial R (cs ! i) simd_weights g = (sd, g1)"
    by (cases "np_multinomial R (cs ! i) simd_weights g")
  show ?case
  proof (cases "simd_loop R d hb0 ag sd (enumerate 0 SIMD_QUINTILES) data g1")
    case (Inl err)
    then show ?thesis
      using Cons.IH [of data g]
      by (simp add: p m Let_def simd_loop_board [where ?hb0.0 = hb0] as_board_def)
  next
    case (Inr res)
    obtain mid g2 where "res = (mid, g2)" by (cases res)
    with Inr show ?thesis
      using Cons.IH [of data g] Cons.IH [of mid g2]
      by (simp add: p m Let_def simd_loop_board [where ?hb0.0 = hb0] as_board_def)
  qed
qed

lemma day_expected_board:
  assumes "base_demand hb = base_demand hb0"
  shows "day_expected hb d = day_expected hb0 d"
proof (cases "map_of day_factors (dayofweek d)")
  case None
  then show ?thesis by (simp add: day_expected_def)
next
  case (Some f)
  have "expected_presentations hb (dt_year d) (dt_month d) f =
        expected_presentations hb0 (dt_year d) (dt_month d) f"
    using assms by (simp add: expected_presentations_def)
  with Some show ?thesis by (simp add: day_expected_def)
qed

lemma generate_day_board:
  assumes "base_demand hb = base_demand hb0"
  shows "generate_day R hb d (with_board hb data) g = as_board hb (generate_day R hb0 d data g)"
proof (cases "day_expected hb0 d")
  case (Inl err)
  then show ?thesis
    by (simp add: generate_day_def day_expected_board [OF assms] as_board_def)
next
  case (Inr lam)
  obtain drawn g1 where p: "np_poisson R lam g = (drawn, g1)" by (cases "np_poisson R lam g")
  obtain cs g2 where m: "np_multinomial R (max 0 drawn) age_weights g1 = (cs, g2)"
    by (cases "np_multinomial R (max 0 drawn) age_weights g1")
  show ?thesis
  proof (cases "lam < 0")
    case True
    with Inr show ?thesis
      by (simp add: generate_day_def day_expected_board [OF assms] as_board_def)
  next
    case False
    with Inr p m show ?thesis
      by (simp add: generate_day_def day_expected_board [OF assms] Let_def
          age_loop_board [where ?hb0.0 = hb0])
  qed
qed

lemma dates_loop_board:
  assumes "base_demand hb = base_demand hb0"
  shows "dates_loop R hb ds (with_board hb data) g = as_board hb (dates_loop R hb0 ds data g)"
proof (induction ds arbitrary: data g)
  case Nil
  show ?case by (simp add: as_board_def)
next
  case (Cons d ds)
  show ?case
  proof (cases "generate_day R hb0 d data g")
    case (Inl err)
    then show ?thesis
      by (simp add: generate_day_board [OF assms] as_board_def)
  next
    case (Inr res)
    obtain mid g1 where "res = (mid, g1)" by (cases res)
    with Inr show ?thesis
      using Cons.IH [of mid g1] by (simp add: generate_day_board [OF assms] as_board_def)
  qed
qed

lemma generate_board:
  assumes "base_demand hb = base_demand hb0"
  shows "generate_time_series_data R s e hb g =
           as_board hb (generate_time_series_data R s e hb0 g)"
  using dates_loop_board [OF assms, of R "[s..e]" "[]" g]
  by (simp add: generate_time_series_data_def with_board_simps)

section \<open>The claims\<close>

text \<open>
  C8. The age, quintile and category weight vectors have 8, 5 and 8 entries, every
  entry is non-negative, each vector sums to 1 within \<open>10\<^sup>-\<^sup>9\<close> (the decimal literals sum
  to 1 exactly), and the quintile weights strictly decrease from quintile 1 to quintile 5.
\<close>

theorem weight_vectors_normalised:
  "length age_weights = 8 \<and> length simd_weights = 5 \<and> length type_weights = 8 \<and>
   list_all (\<lambda>w. 0 \<le> w) age_weights \<and> list_all (\<lambda>w. 0 \<le> w) simd_weights \<and>
   list_all (\<lambda>w. 0 \<le> w) type_weights \<and>
   \<bar>sum_list age_weights - 1\<bar> \<le> 1 / 10 ^ 9 \<and>
   \<bar>sum_list simd_weights - 1\<bar> \<le> 1 / 10 ^ 9 \<and>
   \<bar>sum_list type_weights - 1\<bar> \<le> 1 / 10 ^ 9 \<and>
   sorted_wrt (\<lambda>w w'. w > w') simd_weights"
  by (simp add: age_weights_def simd_weights_def type_weights_def)

text \<open>
  C5. Every record returned by \<open>generate_time_series_data\<close> has a count of at least 1:
  a leaf is appended only under the guard \<^verbatim>\<open>count > 0\<close>. This holds for every
  generator, whatever its draws.
\<close>

theorem emitted_count_at_least_one:
  assumes "generate_time_series_data R s e hb g = Inr (df, g')" "r \<in> set df"
  shows "1 \<le> presentations r"
  using generate_rows [OF assms] by simp

theorem emitted_count_at_least_one_witness:
  "generate_time_series_data example_rng 18262 18262 ''NHS Lothian'' 0 =
     Inr (example_rows 18262 ''NHS Lothian'', 7) \<and>
   1 \<le> presentations (hd (example_rows 18262 ''NHS Lothian''))"
proof -
  note run = example_run_one_day [of "''NHS Lothian''"]
  have "hd (example_rows 18262 ''NHS Lothian'') \<in> set (example_rows 18262 ''NHS Lothian'')"
    by (simp add: example_rows_def)
  from run emitted_count_at_least_one [OF run this] show ?thesis by (rule conjI)
qed

text \<open>
  C9. Every record returned by \<open>generate_time_series_data\<close> carries a date of the closed
  range from the start date to the end date, and the region passed to the call. (When the
  end date is before the start date there is no record at all.)
\<close>

theorem emitted_rows_in_range:
  assumes "generate_time_series_data R s e hb g = Inr (df, g')" "r \<in> set df"
  shows "s \<le> date r \<and> date r \<le> e \<and> health_board r = hb"
  using generate_rows [OF assms] by simp

theorem emitted_rows_in_range_witness:
  "18262 \<le> date (last (example_rows 18262 ''NHS Borders'')) \<and>
   date (last (example_rows 18262 ''NHS Borders'')) \<le> 18262 \<and>
   health_board (last (example_rows 18262 ''NHS Borders'')) = ''NHS Borders''"
proof -
  note run = example_run_one_day [of "''NHS Borders''"]
  have "last (example_rows 18262 ''NHS Borders'') \<in> set (example_rows 18262 ''NHS Borders'')"
    by (simp add: example_rows_def)
  from emitted_rows_in_range [OF run this] show ?thesis .
qed

text \<open>
  C10. In the table of the full run, every row's weekend flag is 1 when its day of the week
  is 5 or 6 (Saturday or Sunday) and 0 otherwise, and that day of the week is the one of
  the row's date. This holds whatever order the sorting routine gives the rows. The
  witness is the run at the module's own dates and boards.
\<close>

theorem weekend_flag:
  assumes "generate_complete_dataset R sort_values g = Inr (df, g')" "r \<in> set df"
  shows "day_of_week r = dayofweek (date r) \<and>
         is_weekend r = (if day_of_week r = 5 \<or> day_of_week r = 6 then 1 else 0)"
proof -
  from dataset_rows [OF assms [unfolded generate_complete_dataset_def]]
  obtain p where "r = add_calendar_columns p" ..
  then show ?thesis by (simp add: add_calendar_columns_simps)
qed

theorem weekend_flag_witness:
  "\<exists>df g'. generate_complete_dataset example_rng (sort_key date) 0 = Inr (df, g') \<and> df \<noteq> [] \<and>
     list_all (\<lambda>r. day_of_week r = dayofweek (date r) \<and>
                 is_weekend r = (if day_of_week r = 5 \<or> day_of_week r = 6 then 1 else 0)) df"
proof -
  from example_complete [of 0] obtain df g' where
    r: "generate_complete_dataset example_rng (sort_key date) 0 = Inr (df, g')" and
    ne: "df \<noteq> []" by blast
  have "list_all (\<lambda>r. day_of_week r = dayofweek (date r) \<and>
                 is_weekend r = (if day_of_week r = 5 \<or> day_of_week r = 6 then 1 else 0)) df"
    unfolding list_all_iff using weekend_flag [OF r] by blast
  with r ne show ?thesis by blast
qed

text \<open>
  C3. For a generator that keeps NumPy's contract for \<^verbatim>\<open>multinomial\<close>, totals are
  conserved at every level: the per-age counts drawn for a day's total \<open>n\<close> are one per age
  group and sum to \<open>n\<close>; the rows emitted for an age bucket of count \<open>n\<close> sum to \<open>n\<close>; the
  rows emitted for an (age, quintile) cell of count \<open>n\<close> sum to \<open>n\<close>; and the rows emitted for
  a day sum to the day's total, the Poisson draw. Each loop runs to completion, and the rows
  it emits carry the day's date and the region, so they are the rows of that cell.
\<close>

theorem totals_conserved:
  assumes "multinomial_contract R"
  shows
    "(0 \<le> n \<longrightarrow>
        length (fst (np_multinomial R n age_weights g)) = length AGE_GROUPS \<and>
        sum_list (fst (np_multinomial R n age_weights g)) = n) \<and>
     (0 \<le> n \<longrightarrow>
        (\<exists>new g'.
           simd_loop R d hb ag (fst (np_multinomial R n simd_weights g))
             (enumerate 0 SIMD_QUINTILES) data (snd (np_multinomial R n simd_weights g)) =
             Inr (data @ new, g') \<and>
           sum_presentations new = n \<and>
           (\<forall>r \<in> set new. date r = d \<and> health_board r = hb))) \<and>
     (0 \<le> n \<longrightarrow>
        (\<exists>new.
           type_loop d hb ag q (fst (np_multinomial R n type_weights g))
             (enumerate 0 PRESENTATION_TYPES) data = Inr (data @ new) \<and>
           sum_presentations new = n \<and>
           (\<forall>r \<in> set new. date r = d \<and> health_board r = hb))) \<and>
     (day_expected hb d = Inr lam \<and> 0 \<le> lam \<longrightarrow>
        (\<exists>new g'.
           generate_day R hb d data g = Inr (data @ new, g') \<and>
           sum_presentations new = max 0 (fst (np_poisson R lam g)) \<and>
           (\<forall>r \<in> set new. date r = d \<and> health_board r = hb)))"
proof (intro conjI impI)
  assume n: "0 \<le> n"
  have ne: "age_weights \<noteq> []" by (simp add: age_weights_def)
  have m: "np_multinomial R n age_weights g =
             (fst (np_multinomial R n age_weights g), snd (np_multinomial R n age_weights g))"
    by simp
  from multinomial_contractD(1) [OF assms n ne m]
  show "length (fst (np_multinomial R n age_weights g)) = length AGE_GROUPS"
    by (simp add: age_weights_def AGE_GROUPS_def)
  from multinomial_contractD(3) [OF assms n ne m]
  show "sum_list (fst (np_multinomial R n age_weights g)) = n" .
next
  assume n: "0 \<le> n"
  show "\<exists>new g'.
           simd_loop R d hb ag (fst (np_multinomial R n simd_weights g))
             (enumerate 0 SIMD_QUINTILES) data (snd (np_multinomial R n simd_weights g)) =
             Inr (data @ new, g') \<and>
           sum_presentations new = n \<and>
           (\<forall>r \<in> set new. date r = d \<and> health_board r = hb)"
    by (rule simd_total [OF assms n]) simp
next
  assume n: "0 \<le> n"
  show "\<exists>new.
           type_loop d hb ag q (fst (np_multinomial R n type_weights g))
             (enumerate 0 PRESENTATION_TYPES) data = Inr (data @ new) \<and>
           sum_presentations new = n \<and>
           (\<forall>r \<in> set new. date r = d \<and> health_board r = hb)"
    by (rule types_total [OF assms n, where g' = "snd (np_multinomial R n type_weights g)"]) simp
next
  assume "day_expected hb d = Inr lam \<and> 0 \<le> lam"
  then have "day_expected hb d = Inr lam" "0 \<le> lam" by simp_all
  then show "\<exists>new g'.
           generate_day R hb d data g = Inr (data @ new, g') \<and>
           sum_presentations new = max 0 (fst (np_poisson R lam g)) \<and>
           (\<forall>r \<in> set new. date r = d \<and> health_board r = hb)"
    by (rule generate_day_total [OF assms])
qed

theorem totals_conserved_witness:
  "generate_day example_rng ''NHS Fife'' 18262 [] 0 = Inr (example_rows 18262 ''NHS Fife'', 7) \<and>
   sum_presentations (example_rows 18262 ''NHS Fife'') = 3"
proof -
  have lam: "day_expected ''NHS Fife'' 18262 = Inr (147 / 2) \<and> (0::real) \<le> 147 / 2"
    by (simp add: day_expected_18262 base_demand_fife)
  note day = totals_conserved [OF example_rng_contract, where hb = "''NHS Fife''" and d = 18262
      and lam = "147 / 2" and data = "[]" and g = 0,
      THEN conjunct2, THEN conjunct2, THEN conjunct2, THEN mp, OF lam]
  then obtain new g' where
    n1: "generate_day example_rng ''NHS Fife'' 18262 [] 0 = Inr ([] @ new, g')" and
    n2: "sum_presentations new = max 0 (fst (np_poisson example_rng (147 / 2) 0))"
    by (elim exE conjE)
  have run: "generate_day example_rng ''NHS Fife'' 18262 [] 0 =
               Inr ([] @ example_rows 18262 ''NHS Fife'', 0 + 7)"
    by (rule example_day [OF lam [THEN conjunct1] lam [THEN conjunct2]])
  from n1 run have "new = example_rows 18262 ''NHS Fife''" by simp
  with n2 have "sum_presentations (example_rows 18262 ''NHS Fife'') = 3"
    by (simp add: example_rng_simps)
  with run show ?thesis by simp
qed

text \<open>
  C6. The daily summary written by \<open>save_data\<close> re-aggregates the full table: the full
  artifact is the table itself, the summary has exactly one row for each (date, region)
  that occurs in the table, and that row's total is the sum of \<open>presentations\<close> over the
  table's rows of that date and region. The witness is the 7-day table of 2020-01-01 to
  2020-01-07.
\<close>

theorem daily_summary_round_trip:
  assumes "save_data df = (full, daily, monthly)"
  shows "full = df \<and> distinct (map fst daily) \<and>
         fst ` set daily = (\<lambda>r. (date r, health_board r)) ` set full \<and>
         (\<forall>d hb total. ((d, hb), total) \<in> set daily \<longrightarrow>
            total = sum_presentations [r \<leftarrow> full. date r = d \<and> health_board r = hb])"
proof -
  from assms have f: "full = df" and dl: "daily = daily_summary df"
    by (auto simp: save_data_def)
  have "distinct (map fst daily)"
    unfolding dl daily_summary_def by (rule groupby_sum_distinct)
  moreover have "fst ` set daily = (\<lambda>r. (date r, health_board r)) ` set full"
    unfolding dl f daily_summary_def by (rule groupby_sum_keys)
  moreover have "total = sum_presentations [r \<leftarrow> full. date r = d \<and> health_board r = hb]"
    if "((d, hb), total) \<in> set daily" for d hb total
  proof -
    have "[r \<leftarrow> df. (date r, health_board r) = (d, hb)] =
          [r \<leftarrow> df. date r = d \<and> health_board r = hb]"
      by (rule filter_cong) auto
    with that show ?thesis
      unfolding dl f daily_summary_def groupby_sum_member sum_presentations_def by simp
  qed
  ultimately show ?thesis using f by blast
qed

theorem daily_summary_round_trip_witness:
  "generate_dataset example_rng (sort_key date) 18262 18268 [''NHS Fife''] 0 =
     Inr (example_table, 49) \<and>
   snd (save_data example_table) = (daily_summary example_table, monthly_summary example_table) \<and>
   ((18264, ''NHS Fife''), 3) \<in> set (daily_summary example_table) \<and>
   3 = sum_presentations [r \<leftarrow> example_table. date r = 18264 \<and> health_board r = ''NHS Fife'']"
proof -
  have sd: "save_data example_table =
              (example_table, daily_summary example_table, monthly_summary example_table)"
    by (simp add: save_data_def)
  have m: "((18264, ''NHS Fife''), 3) \<in> set (daily_summary example_table)"
    by (simp add: example_daily)
  note rt = daily_summary_round_trip [OF sd, THEN conjunct2, THEN conjunct2, THEN conjunct2,
      THEN spec, THEN spec, THEN spec, THEN mp, OF m]
  from example_table_run sd m rt show ?thesis by simp
qed

text \<open>
  C2. The claim is that the expected count averaged over January to March exceeds the one
  averaged over June to August. In the program the order is the reverse: for NHS Fife in
  2019 on a Monday the first mean is below 62 and the second is 65. The seasonal factor
  \<open>1 + 0.3 sin(2\<pi>(m - 1)/12 + \<pi>)\<close> is lowest in April and highest in October;
  \<open>winter_below_summer\<close> above gives the same order for every region, every year after
  1999 and every positive day factor.
\<close>

theorem seasonal_peak_reversed:
  "mean_expected ''NHS Fife'' 2019 (13 / 10) [1, 2, 3] < 62 \<and>
   mean_expected ''NHS Fife'' 2019 (13 / 10) [6, 7, 8] = 65"
proof -
  have b: "base_demand ''NHS Fife'' = 50" by (rule base_demand_fife)
  have s: "mean_expected ''NHS Fife'' 2019 (13 / 10) [6, 7, 8] = 65"
    by (simp add: mean_expected_quarters b covid_factor_def year_trend_def)
  have "0 < sqrt 3" by simp
  then have "65 * ((57 / 20 - 3 / 20 * sqrt 3) / 3) < (62::real)" by argo
  moreover have "mean_expected ''NHS Fife'' 2019 (13 / 10) [1, 2, 3] =
        65 * ((57 / 20 - 3 / 20 * sqrt 3) / 3)"
    by (simp add: mean_expected_quarters b covid_factor_def year_trend_def)
  ultimately show ?thesis using s by simp
qed

text \<open>
  C7. The claim is that a negative expected count is floored at 0 before the Poisson draw.
  In the program \<^verbatim>\<open>max(0, ...)\<close> is applied to the number drawn, not to the expected
  count: on 1998-01-01 the expected count for NHS Fife is -2.5, it reaches
  \<^verbatim>\<open>np.random.poisson\<close> as it is, and the call raises. \<open>generate_day_before_1999\<close>
  above gives the same for every day before 1999, every region and every generator.
\<close>

theorem negative_lambda_reaches_poisson:
  "days_from_civil 1998 1 1 = 10227 \<and>
   day_expected ''NHS Fife'' 10227 = Inr (- (5 / 2)) \<and>
   generate_time_series_data example_rng 10227 10227 ''NHS Fife'' 0 = Inl ValueError"
proof -
  have a: "days_from_civil 1998 1 1 = 10227" by code_simp
  have b: "day_expected ''NHS Fife'' 10227 = Inr (- (5 / 2))"
    by (simp add: day_expected_def civil_10227 dow_10227 day_factors_def dt_year_def
        dt_month_def expected_presentations_def seasonal_january covid_factor_def
        year_trend_def base_demand_fife)
  have "dt_year 10227 < 1999" by (simp add: dt_year_def civil_10227)
  then have "generate_day example_rng ''NHS Fife'' 10227 [] 0 = Inl ValueError"
    by (rule generate_day_before_1999)
  then have c: "generate_time_series_data example_rng 10227 10227 ''NHS Fife'' 0 = Inl ValueError"
    by (simp add: generate_time_series_data_def)
  from a b c show ?thesis by simp
qed

text \<open>
  C1, as amended. A region outside the enumeration is not rejected. Its multiplier
  defaults to 1.0, so the baseline is 50, and the call does exactly what it does for
  NHS Fife, a region whose multiplier is 1.0: the same draws and the same outcome, the
  records differing only in the region field, which holds the identifier passed. In
  particular a call for one day whose expected count is not negative returns, with a
  generator that keeps the multinomial contract, records of that day and region whose
  counts sum to the day's Poisson draw. An end date before the start date is not rejected
  either: the date range is empty and the call returns the empty table, with no draw from
  the generator.
\<close>

theorem invalid_configuration_not_rejected:
  "(hb \<notin> set HEALTH_BOARDS \<longrightarrow>
      base_demand hb = 50 \<and>
      generate_time_series_data R s e hb g =
        as_board hb (generate_time_series_data R s e ''NHS Fife'' g) \<and>
      (multinomial_contract R \<and> day_expected ''NHS Fife'' d = Inr lam \<and> 0 \<le> lam \<longrightarrow>
         (\<exists>df g'. generate_time_series_data R d d hb g = Inr (df, g') \<and>
            sum_presentations df = max 0 (fst (np_poisson R lam g)) \<and>
            (\<forall>r \<in> set df. date r = d \<and> health_board r = hb)))) \<and>
   (e < s \<longrightarrow> generate_time_series_data R s e hb g = Inr ([], g))"
proof (intro conjI impI)
  assume u: "hb \<notin> set HEALTH_BOARDS"
  then show b: "base_demand hb = 50"
    by (simp add: base_demand_def unknown_board_multiplier)
  then have eq: "base_demand hb = base_demand ''NHS Fife''"
    by (simp add: base_demand_fife)
  then show "generate_time_series_data R s e hb g =
               as_board hb (generate_time_series_data R s e ''NHS Fife'' g)"
    by (rule generate_board)
  assume "multinomial_contract R \<and> day_expected ''NHS Fife'' d = Inr lam \<and> 0 \<le> lam"
  then have c: "multinomial_contract R" and l: "day_expected hb d = Inr lam" "0 \<le> lam"
    by (simp_all add: day_expected_board [OF eq])
  from generate_day_total [OF c l, of "[]" g] obtain new g' where
    "generate_day R hb d [] g = Inr ([] @ new, g')"
    "sum_presentations new = max 0 (fst (np_poisson R lam g))"
    "\<forall>r \<in> set new. date r = d \<and> health_board r = hb"
    by blast
  then have "generate_time_series_data R d d hb g = Inr (new, g') \<and>
             sum_presentations new = max 0 (fst (np_poisson R lam g)) \<and>
             (\<forall>r \<in> set new. date r = d \<and> health_board r = hb)"
    by (simp add: generate_time_series_data_def)
  then show "\<exists>df g'. generate_time_series_data R d d hb g = Inr (df, g') \<and>
            sum_presentations df = max 0 (fst (np_poisson R lam g)) \<and>
            (\<forall>r \<in> set df. date r = d \<and> health_board r = hb)"
    by blast
next
  assume "e < s"
  then show "generate_time_series_data R s e hb g = Inr ([], g)"
    by (simp add: generate_time_series_data_def)
qed

theorem invalid_configuration_not_rejected_witness:
  "base_demand ''Atlantis'' = 50 \<and>
   generate_time_series_data example_rng 18262 18268 ''Atlantis'' 0 =
     as_board ''Atlantis'' (generate_time_series_data example_rng 18262 18268 ''NHS Fife'' 0) \<and>
   (\<exists>df g'. generate_time_series_data example_rng 18262 18262 ''Atlantis'' 0 = Inr (df, g') \<and>
      sum_presentations df = 3 \<and>
      (\<forall>r \<in> set df. date r = 18262 \<and> health_board r = ''Atlantis'')) \<and>
   generate_time_series_data example_rng 18262 18261 ''Atlantis'' 0 = Inr ([], 0)"
proof -
  have u: "''Atlantis'' \<notin> set HEALTH_BOARDS" by (simp add: HEALTH_BOARDS_def)
  have c: "multinomial_contract example_rng \<and>
           day_expected ''NHS Fife'' 18262 = Inr (147 / 2) \<and> (0::real) \<le> 147 / 2"
    using example_rng_contract by (simp add: day_expected_18262 base_demand_fife)
  have lt: "(18261::int) < 18262" by simp
  note k = invalid_configuration_not_rejected [where hb = "''Atlantis''" and R = example_rng
      and s = 18262 and g = 0 and d = 18262 and lam = "147 / 2"]
  note k1 = k [where e = 18268, THEN conjunct1, THEN mp, OF u]
  note a = k1 [THEN conjunct1]
  note b = k1 [THEN conjunct2, THEN conjunct1]
  note d = k1 [THEN conjunct2, THEN conjunct2, THEN mp, OF c]
  note e = k [where e = 18261, THEN conjunct2, THEN mp, OF lt]
  from d have "\<exists>df g'. generate_time_series_data example_rng 18262 18262 ''Atlantis'' 0 =
        Inr (df, g') \<and> sum_presentations df = 3 \<and>
        (\<forall>r \<in> set df. date r = 18262 \<and> health_board r = ''Atlantis'')"
    by (simp add: example_rng_simps)
  with a b e show ?thesis by (intro conjI)
qed

text \<open>
  C1, as stated, fails: the unknown region \<open>Atlantis\<close> yields three records for
  2020-01-01 instead of an error, and an end date one day before the start date yields
  the empty table instead of an error.
\<close>

theorem invalid_configuration_counterexample:
  "''Atlantis'' \<notin> set HEALTH_BOARDS \<and>
   generate_time_series_data example_rng 18262 18262 ''Atlantis'' 0 =
     Inr (example_rows 18262 ''Atlantis'', 7) \<and>
   example_rows 18262 ''Atlantis'' \<noteq> [] \<and>
   (18261::int) < 18262 \<and>
   generate_time_series_data example_rng 18262 18261 ''NHS Fife'' 0 = Inr ([], 0)"
proof -
  have "''Atlantis'' \<notin> set HEALTH_BOARDS" by (simp add: HEALTH_BOARDS_def)
  moreover note example_run_one_day [of "''Atlantis''"] example_rows_nonempty [of 18262 "''Atlantis''"]
  moreover have "generate_time_series_data example_rng 18262 18261 ''NHS Fife'' 0 = Inr ([], 0)"
    by (simp add: generate_time_series_data_def)
  ultimately show ?thesis by simp
qed

end
